theory Spec2Isabelle
  imports Main "HOL-Library.Sublist"
begin

section \<open>Strings of the source language\<close>

text \<open>
  The source is \<^verbatim>\<open>Exercises/Solves/cust_modules.py\<close>:
  \<^verbatim>\<open>
  import re
  def clean_response(text):
      pattern = r"<think>.*?</think>"
      cleaned_text = re.sub(pattern, "", text, flags=re.DOTALL).strip()
      return cleaned_text
  \<close>
  A Python \<^verbatim>\<open>str\<close> is a sequence of Unicode code points, so a
  character is a natural number here and not an 8-bit \<^typ>\<open>char\<close>:
  \<^verbatim>\<open>str.strip\<close> looks at code points beyond 255.
\<close>

type_synonym codepoint = nat
type_synonym pystr = "codepoint list"

definition str :: "string \<Rightarrow> pystr" where
  "str cs = map of_char cs"

section \<open>The regular expression engine, for the fragment the pattern uses\<close>

text \<open>
  The pattern \<^verbatim>\<open><think>.*?</think>\<close> is a sequence of literal characters
  and one lazily repeated dot. \<open>Lit c\<close> matches the character \<open>c\<close>; \<open>Dot\<close>
  matches any character but the newline, and the newline too under
  \<^verbatim>\<open>re.DOTALL\<close>. \<open>One a\<close> matches \<open>a\<close> once, \<open>MinRepeat a\<close> is
  \<^verbatim>\<open>a*?\<close>.
\<close>

datatype atom = Lit codepoint | Dot
datatype node = One atom | MinRepeat atom
datatype re_flag = NOFLAG | DOTALL

fun atom_ok :: "re_flag \<Rightarrow> atom \<Rightarrow> codepoint \<Rightarrow> bool" where
  "atom_ok fl (Lit x) c = (c = x)"
| "atom_ok DOTALL Dot c = True"
| "atom_ok NOFLAG Dot c = (c \<noteq> 10)"

text \<open>
  \<open>match_here fl p s adv start\<close> is the backtracking matcher anchored at the head of
  \<open>s\<close>: it returns the text left after the match the engine prefers, or \<open>None\<close>.
  A lazy repeat first tries the rest of the pattern and takes one more character
  only when that fails. At the end of the pattern the engine refuses an empty match
  when \<open>adv\<close> (its \<^verbatim>\<open>must_advance\<close>) is set; \<open>start\<close> is the text the
  attempt began at.
\<close>

fun match_here :: "re_flag \<Rightarrow> node list \<Rightarrow> pystr \<Rightarrow> bool \<Rightarrow> pystr \<Rightarrow> pystr option" where
  "match_here fl [] s adv start = (if adv \<and> s = start then None else Some s)"
| "match_here fl (One a # p) [] adv start = None"
| "match_here fl (One a # p) (c # cs) adv start =
     (if atom_ok fl a c then match_here fl p cs adv start else None)"
| "match_here fl (MinRepeat a # p) [] adv start = match_here fl p [] adv start"
| "match_here fl (MinRepeat a # p) (c # cs) adv start =
     (case match_here fl p (c # cs) adv start of
        Some r \<Rightarrow> Some r
      | None \<Rightarrow> if atom_ok fl a c then match_here fl (MinRepeat a # p) cs adv start else None)"

lemma match_here_suffix:
  "match_here fl p s adv start = Some r \<Longrightarrow> suffix r s"
proof (induction fl p s adv start arbitrary: r rule: match_here.induct)
  case (1 fl s adv start)
  then show ?case by (simp split: if_splits)
next
  case (2 fl a p adv start)
  then show ?case by simp
next
  case (3 fl a p c cs adv start)
  then show ?case by (auto split: if_splits intro: suffix_ConsI)
next
  case (4 fl a p adv start)
  then show ?case by simp
next
  case (5 fl a p c cs adv start)
  then show ?case by (auto split: option.splits if_splits intro: suffix_ConsI)
qed

lemma match_here_advances:
  "match_here fl p s True start = Some r \<Longrightarrow> r \<noteq> start"
proof (induction fl p s "True" start arbitrary: r rule: match_here.induct)
  case (1 fl s start)
  then show ?case by (simp split: if_splits)
next
  case (2 fl a p start)
  then show ?case by simp
next
  case (3 fl a p c cs start)
  then show ?case by (simp split: if_splits)
next
  case (4 fl a p start)
  then show ?case by simp
next
  case (5 fl a p c cs start)
  then show ?case by (simp split: option.splits if_splits)
qed

text \<open>
  \<^verbatim>\<open>re.sub(pattern, repl, string, flags=fl)\<close> with a plain replacement text and
  no count. The engine searches from the current position; on a match it emits
  \<open>repl\<close> and goes on behind the match, and after an empty match the next attempt at
  the same position must advance. Where nothing matches at the current position
  the character there is copied and the search moves one to the right.
\<close>

function re_sub_from :: "re_flag \<Rightarrow> node list \<Rightarrow> pystr \<Rightarrow> bool \<Rightarrow> pystr \<Rightarrow> pystr" where
  "re_sub_from fl p repl adv s =
     (case match_here fl p s adv s of
        Some r \<Rightarrow> repl @ re_sub_from fl p repl (r = s) r
      | None \<Rightarrow> (case s of [] \<Rightarrow> [] | c # cs \<Rightarrow> c # re_sub_from fl p repl False cs))"
  by pat_completeness auto
termination
proof (relation "measure (\<lambda>(fl, p, repl, adv, s). 2 * length s + (if adv then 0 else 1))")
  show "wf (measure (\<lambda>(fl, p, repl, adv, s). 2 * length s + (if adv then 0 else 1)))"
    by simp
next
  fix fl :: re_flag and p :: "node list" and repl :: pystr and adv :: bool
    and s r :: pystr
  assume m: "match_here fl p s adv s = Some r"
  have suf: "suffix r s" using m by (rule match_here_suffix)
  show "((fl, p, repl, r = s, r), (fl, p, repl, adv, s))
          \<in> measure (\<lambda>(fl, p, repl, adv, s). 2 * length s + (if adv then 0 else 1))"
  proof (cases "r = s")
    case True
    have "\<not> adv"
    proof
      assume adv
      with m have "match_here fl p s True s = Some r" by simp
      then have "r \<noteq> s" by (rule match_here_advances)
      with True show False by simp
    qed
    with True show ?thesis by simp
  next
    case False
    from suf obtain u where u: "s = u @ r" by (auto simp: suffix_def)
    with False have "u \<noteq> []" by auto
    with u have "length r < length s" by simp
    with False show ?thesis by simp
  qed
next
  fix fl :: re_flag and p :: "node list" and repl :: pystr and adv :: bool
    and s :: pystr and c :: codepoint and cs :: pystr
  assume "s = c # cs"
  then show "((fl, p, repl, False, cs), (fl, p, repl, adv, s))
          \<in> measure (\<lambda>(fl, p, repl, adv, s). 2 * length s + (if adv then 0 else 1))"
    by simp
qed

definition re_sub :: "node list \<Rightarrow> pystr \<Rightarrow> pystr \<Rightarrow> re_flag \<Rightarrow> pystr" where
  "re_sub p repl s fl = re_sub_from fl p repl False s"

section \<open>Whitespace and \<^verbatim>\<open>str.strip\<close>\<close>

text \<open>
  The characters \<^verbatim>\<open>str.isspace\<close> accepts, which are the ones
  \<^verbatim>\<open>str.strip()\<close> removes: the table of CPython's
  \<^verbatim>\<open>_PyUnicode_IsWhitespace\<close>.
\<close>

definition isspace :: "codepoint \<Rightarrow> bool" where
  "isspace c = (c \<in> set [0x09, 0x0A, 0x0B, 0x0C, 0x0D, 0x1C, 0x1D, 0x1E, 0x1F, 0x20,
     0x85, 0xA0, 0x1680, 0x2000, 0x2001, 0x2002, 0x2003, 0x2004, 0x2005, 0x2006,
     0x2007, 0x2008, 0x2009, 0x200A, 0x2028, 0x2029, 0x202F, 0x205F, 0x3000])"

definition lstrip :: "pystr \<Rightarrow> pystr" where
  "lstrip s = dropWhile isspace s"

definition rstrip :: "pystr \<Rightarrow> pystr" where
  "rstrip s = rev (dropWhile isspace (rev s))"

definition strip :: "pystr \<Rightarrow> pystr" where
  "strip s = rstrip (lstrip s)"

section \<open>The function of the source\<close>

definition think_open :: pystr where
  "think_open = str ''<think>''"

definition think_close :: pystr where
  "think_close = str ''</think>''"

text \<open>A run of literal characters, as the pattern's compiled form has them.\<close>

fun lits :: "pystr \<Rightarrow> node list" where
  "lits [] = []"
| "lits (c # cs) = One (Lit c) # lits cs"

definition pattern :: "node list" where
  "pattern = lits think_open @ [MinRepeat Dot] @ lits think_close"

definition clean_response :: "pystr \<Rightarrow> pystr" where
  "clean_response text = strip (re_sub pattern [] text DOTALL)"

text \<open>
  The call as the interpreter runs it. The argument is any Python value, and two
  steps of \<^verbatim>\<open>re.sub\<close> can raise before the text is scanned: compiling
  the pattern text raises \<^verbatim>\<open>re.error\<close> for a repeat operator with nothing
  to repeat, and a subject that is not a \<^verbatim>\<open>str\<close> raises
  \<^verbatim>\<open>TypeError\<close> under a \<^verbatim>\<open>str\<close> pattern. \<open>Unsupported\<close> is
  not an exception of Python: it marks pattern syntax beyond the fragment of the
  engine above.
\<close>

datatype pyval = PyStr pystr | PyBytes "nat list" | PyInt int | PyNone
datatype pyerror = TypeError | ReError | Unsupported

definition atom_of :: "codepoint \<Rightarrow> atom" where
  "atom_of c = (if c = 46 then Dot else Lit c)"

text \<open>The text behind a lazy star \<^verbatim>\<open>*?\<close>, where one stands at the head.\<close>

fun lazy_star :: "pystr \<Rightarrow> pystr option" where
  "lazy_star (x # y # rest) = (if x = 42 \<and> y = 63 then Some rest else None)"
| "lazy_star cs = None"

lemma lazy_star_shorter:
  "lazy_star cs = Some rest \<Longrightarrow> length rest < length cs"
  by (induction cs rule: lazy_star.induct) (simp_all split: if_splits)

function re_compile :: "pystr \<Rightarrow> pyerror + node list" where
  "re_compile [] = Inr []"
| "re_compile (c # cs) =
     (if c \<in> set [42, 43, 63] then Inl ReError
      else if c \<in> set [94, 36, 123, 125, 91, 93, 92, 124, 40, 41] then Inl Unsupported
      else (case lazy_star cs of
              Some rest \<Rightarrow>
                (case re_compile rest of
                   Inl e \<Rightarrow> Inl e
                 | Inr p \<Rightarrow> Inr (MinRepeat (atom_of c) # p))
            | None \<Rightarrow>
                if cs \<noteq> [] \<and> hd cs \<in> set [42, 43, 63, 123] then Inl Unsupported
                else (case re_compile cs of
                        Inl e \<Rightarrow> Inl e
                      | Inr p \<Rightarrow> Inr (One (atom_of c) # p))))"
  by pat_completeness auto
termination
proof (relation "measure length")
  show "wf (measure length)" by simp
next
  fix c :: codepoint and cs rest :: pystr
  assume "lazy_star cs = Some rest"
  then have "length rest < length cs" by (rule lazy_star_shorter)
  then show "(rest, c # cs) \<in> measure length" by simp
next
  fix c :: codepoint and cs :: pystr
  show "(cs, c # cs) \<in> measure length" by simp
qed

definition pattern_source :: pystr where
  "pattern_source = str ''<think>.*?</think>''"

definition clean_response_call :: "pyval \<Rightarrow> pyerror + pyval" where
  "clean_response_call text =
     (case re_compile pattern_source of
        Inl e \<Rightarrow> Inl e
      | Inr p \<Rightarrow>
          (case text of
             PyStr s \<Rightarrow> Inr (PyStr (strip (re_sub p [] s DOTALL)))
           | _ \<Rightarrow> Inl TypeError))"

section \<open>The specification's reading, to compare with\<close>

text \<open>
  \<open>find_marker m s\<close> is the index of the leftmost occurrence of the text \<open>m\<close> in
  \<open>s\<close>, if there is one.
\<close>

fun find_marker :: "pystr \<Rightarrow> pystr \<Rightarrow> nat option" where
  "find_marker m [] = (if prefix m [] then Some 0 else None)"
| "find_marker m (c # cs) =
     (if prefix m (c # cs) then Some 0 else map_option Suc (find_marker m cs))"

definition occurs :: "pystr \<Rightarrow> pystr \<Rightarrow> bool" where
  "occurs m s = (find_marker m s \<noteq> None)"

text \<open>
  A span: an opening marker somewhere in the text and a closing marker that starts
  behind it.
\<close>

fun has_span :: "pystr \<Rightarrow> bool" where
  "has_span [] = False"
| "has_span (c # cs) =
     (if prefix think_open (c # cs) \<and> occurs think_close (drop (length think_open) (c # cs))
      then True else has_span cs)"

text \<open>
  The length of the span that starts at the head of the text: the opening marker,
  the text up to the nearest closing marker, and that marker.
\<close>

definition span_end :: "pystr \<Rightarrow> nat option" where
  "span_end s =
     (if prefix think_open s
      then map_option (\<lambda>j. length think_open + j + length think_close)
             (find_marker think_close (drop (length think_open) s))
      else None)"

lemma find_marker_bound:
  "find_marker m s = Some i \<Longrightarrow> i + length m \<le> length s"
proof (induction s arbitrary: i)
  case Nil
  then show ?case by (simp split: if_splits)
next
  case (Cons c cs)
  show ?case
  proof (cases "prefix m (c # cs)")
    case True
    with Cons.prems have "i = 0" by simp
    with True show ?thesis using prefix_length_le [of m "c # cs"] by simp
  next
    case False
    with Cons.prems obtain k where "find_marker m cs = Some k" "i = Suc k" by auto
    with Cons.IH show ?thesis by fastforce
  qed
qed

text \<open>
  The removal as the specification words it, written from its sentences and not
  from the engine above: one pass from left to right. It looks for the leftmost opening marker and the nearest closing
  marker behind it, drops that span with both markers, keeps what stands before it
  and goes on in the text behind it. Where no opening marker is left, or none with
  a closing marker behind it, the rest of the text is kept as it is.
\<close>

function spec_remove_spans :: "pystr \<Rightarrow> pystr" where
  "spec_remove_spans s =
     (case find_marker think_open s of
        None \<Rightarrow> s
      | Some i \<Rightarrow>
          (case find_marker think_close (drop (i + length think_open) s) of
             None \<Rightarrow> s
           | Some j \<Rightarrow>
               take i s @
               spec_remove_spans (drop (i + length think_open + j + length think_close) s)))"
  by pat_completeness auto
termination
proof (relation "measure length")
  show "wf (measure length)" by simp
next
  fix s :: pystr and i j :: nat
  assume "find_marker think_open s = Some i"
  then have "i + length think_open \<le> length s" by (rule find_marker_bound)
  moreover have "length think_open = 7" by (simp add: think_open_def str_def)
  ultimately show "(drop (i + length think_open + j + length think_close) s, s) \<in> measure length"
    by simp
qed

declare re_sub_from.simps [simp del] spec_remove_spans.simps [simp del]

text \<open>
  The trimming as the specification words it: the whitespace characters at the end
  of the text are removed, and those at its start. Which characters are whitespace
  is the language's matter (\<open>isspace\<close>); how they are removed is written here
  anew, by recursion over the text and in the other order than \<open>strip\<close> works.
\<close>

fun spec_trim_leading :: "pystr \<Rightarrow> pystr" where
  "spec_trim_leading [] = []"
| "spec_trim_leading (c # cs) = (if isspace c then spec_trim_leading cs else c # cs)"

fun spec_trim_trailing :: "pystr \<Rightarrow> pystr" where
  "spec_trim_trailing [] = []"
| "spec_trim_trailing (c # cs) =
     (let r = spec_trim_trailing cs in if r = [] \<and> isspace c then [] else c # r)"

definition spec_trim :: "pystr \<Rightarrow> pystr" where
  "spec_trim s = spec_trim_leading (spec_trim_trailing s)"

definition spec_clean :: "pystr \<Rightarrow> pystr" where
  "spec_clean text = spec_trim (spec_remove_spans text)"

section \<open>The constants, evaluated\<close>

lemma think_open_code: "think_open = [60, 116, 104, 105, 110, 107, 62]"
  by (simp add: think_open_def str_def)

lemma think_close_code: "think_close = [60, 47, 116, 104, 105, 110, 107, 62]"
  by (simp add: think_close_def str_def)

lemma pattern_code:
  "pattern = [One (Lit 60), One (Lit 116), One (Lit 104), One (Lit 105), One (Lit 110),
     One (Lit 107), One (Lit 62), MinRepeat Dot, One (Lit 60), One (Lit 47), One (Lit 116),
     One (Lit 104), One (Lit 105), One (Lit 110), One (Lit 107), One (Lit 62)]"
  by (simp add: pattern_def think_open_code think_close_code)

lemma length_think_open: "length think_open = 7"
  by (simp add: think_open_code)

lemma length_think_close: "length think_close = 8"
  by (simp add: think_close_code)

lemmas eval_defs = clean_response_def re_sub_def re_sub_from.simps pattern_code str_def
  strip_def lstrip_def rstrip_def isspace_def

section \<open>The engine on the pattern of the source\<close>

lemma match_lits:
  "match_here fl (lits m @ p) s adv st =
     (if prefix m s then match_here fl p (drop (length m) s) adv st else None)"
proof (induction m arbitrary: s)
  case Nil
  show ?case by simp
next
  case (Cons x m)
  show ?case
  proof (cases s)
    case Nil
    then show ?thesis by simp
  next
    case (Cons c cs)
    with Cons.IH [of cs] show ?thesis by simp
  qed
qed

lemma match_lits_end:
  "match_here fl (lits m) s False st =
     (if prefix m s then Some (drop (length m) s) else None)"
  using match_lits [of fl m "[]" s False st] by simp

lemma match_lazy_lits:
  "match_here DOTALL (MinRepeat Dot # lits m) s False st =
     (case find_marker m s of None \<Rightarrow> None | Some j \<Rightarrow> Some (drop (j + length m) s))"
proof (induction s)
  case Nil
  show ?case using match_lits_end [of DOTALL m "[]" st] by simp
next
  case (Cons c cs)
  show ?case
  proof (cases "prefix m (c # cs)")
    case True
    then show ?thesis using match_lits_end [of DOTALL m "c # cs" st] by simp
  next
    case False
    with Cons.IH show ?thesis
      using match_lits_end [of DOTALL m "c # cs" st] by (simp split: option.splits)
  qed
qed

lemma match_pattern:
  "match_here DOTALL pattern s False st =
     (if prefix think_open s
      then (case find_marker think_close (drop (length think_open) s) of
              None \<Rightarrow> None
            | Some j \<Rightarrow> Some (drop (length think_open + j + length think_close) s))
      else None)"
proof -
  have "match_here DOTALL pattern s False st =
      (if prefix think_open s
       then match_here DOTALL (MinRepeat Dot # lits think_close)
              (drop (length think_open) s) False st
       else None)"
    unfolding pattern_def using match_lits [of DOTALL think_open _ s False st] by simp
  then show ?thesis
    by (simp add: match_lazy_lits add.commute add.left_commute split: option.splits)
qed

lemma span_end_bound:
  "span_end s = Some n \<Longrightarrow> 15 \<le> n \<and> n \<le> length s"
proof -
  assume a: "span_end s = Some n"
  then have p: "prefix think_open s" by (simp add: span_end_def split: if_splits)
  with a obtain j where j: "find_marker think_close (drop (length think_open) s) = Some j"
    and n: "n = length think_open + j + length think_close"
    by (auto simp: span_end_def)
  from j have "j + length think_close \<le> length (drop (length think_open) s)"
    by (rule find_marker_bound)
  moreover from p have "length think_open \<le> length s" by (rule prefix_length_le)
  ultimately show ?thesis using n by (simp add: length_think_open length_think_close)
qed

lemma span_end_shorter:
  assumes "span_end s = Some n"
  shows "length (drop n s) < length s"
proof -
  from assms have "15 \<le> n \<and> n \<le> length s" by (rule span_end_bound)
  then have "0 < n" and "0 < length s" by auto
  then show ?thesis by simp
qed

lemma span_end_None_iff:
  "span_end s = None \<longleftrightarrow>
     \<not> (prefix think_open s \<and> occurs think_close (drop (length think_open) s))"
  by (simp add: span_end_def occurs_def)

lemma match_pattern_span:
  "match_here DOTALL pattern s False st = map_option (\<lambda>n. drop n s) (span_end s)"
  by (simp add: match_pattern span_end_def split: option.splits)

lemma sub_nil: "re_sub pattern [] [] DOTALL = []"
  by (simp add: re_sub_def re_sub_from.simps match_pattern_span span_end_def think_open_code)

lemma sub_match:
  assumes "span_end s = Some n"
  shows "re_sub pattern [] s DOTALL = re_sub pattern [] (drop n s) DOTALL"
proof -
  from assms have "length (drop n s) < length s" by (rule span_end_shorter)
  then have "drop n s \<noteq> s" by (metis less_irrefl)
  with assms show ?thesis
    unfolding re_sub_def
    by (subst re_sub_from.simps) (simp add: match_pattern_span)
qed

lemma sub_nomatch:
  assumes "span_end (c # cs) = None"
  shows "re_sub pattern [] (c # cs) DOTALL = c # re_sub pattern [] cs DOTALL"
  using assms unfolding re_sub_def
  by (subst re_sub_from.simps) (simp add: match_pattern_span)

lemma spec_nil: "spec_remove_spans [] = []"
  by (subst spec_remove_spans.simps) (simp add: think_open_code)

lemma find_marker_head:
  "prefix m s \<Longrightarrow> find_marker m s = Some 0"
  by (cases s) simp_all

lemma spec_match:
  assumes "span_end s = Some n"
  shows "spec_remove_spans s = spec_remove_spans (drop n s)"
proof -
  from assms have p: "prefix think_open s" by (simp add: span_end_def split: if_splits)
  with assms obtain j where j: "find_marker think_close (drop (length think_open) s) = Some j"
    and n: "n = length think_open + j + length think_close"
    by (auto simp: span_end_def)
  from p have "find_marker think_open s = Some 0" by (rule find_marker_head)
  with j n show ?thesis
    by (subst spec_remove_spans.simps) simp
qed

lemma find_marker_None_tl:
  "find_marker m (c # cs) = None \<Longrightarrow> find_marker m cs = None"
  by (simp split: if_splits)

lemma find_marker_None_drop:
  "find_marker m s = None \<Longrightarrow> find_marker m (drop k s) = None"
proof (induction k arbitrary: s)
  case 0
  then show ?case by simp
next
  case (Suc k)
  show ?case
  proof (cases s)
    case Nil
    with Suc.prems show ?thesis by simp
  next
    case (Cons c cs)
    with Suc.prems have "find_marker m cs = None" by (simp split: if_splits)
    with Suc.IH Cons show ?thesis by simp
  qed
qed

lemma spec_nomatch:
  assumes "span_end (c # cs) = None"
  shows "spec_remove_spans (c # cs) = c # spec_remove_spans cs"
proof (cases "prefix think_open (c # cs)")
  case False
  show ?thesis
  proof (cases "find_marker think_open cs")
    case None
    with False show ?thesis
      by (subst spec_remove_spans.simps, subst (2) spec_remove_spans.simps) simp
  next
    case (Some i)
    with False show ?thesis
      by (subst spec_remove_spans.simps, subst (2) spec_remove_spans.simps)
        (simp split: option.splits)
  qed
next
  case True
  with assms have nc: "find_marker think_close (drop (length think_open) (c # cs)) = None"
    by (simp add: span_end_def)
  from True have "find_marker think_open (c # cs) = Some 0" by (rule find_marker_head)
  with nc have l: "spec_remove_spans (c # cs) = c # cs"
    by (subst spec_remove_spans.simps) simp
  have "spec_remove_spans cs = cs"
  proof (cases "find_marker think_open cs")
    case None
    then show ?thesis by (subst spec_remove_spans.simps) simp
  next
    case (Some i)
    have "drop (i + length think_open) cs = drop (Suc i) (drop (length think_open) (c # cs))"
      by (simp add: length_think_open add.commute)
    with nc have "find_marker think_close (drop (i + length think_open) cs) = None"
      using find_marker_None_drop by metis
    with Some show ?thesis by (subst spec_remove_spans.simps) simp
  qed
  with l show ?thesis by simp
qed

lemma sub_eq_spec:
  "re_sub pattern [] s DOTALL = spec_remove_spans s"
proof (induction s rule: length_induct)
  case (1 s)
  show ?case
  proof (cases s)
    case Nil
    then show ?thesis by (simp add: sub_nil spec_nil)
  next
    case (Cons c cs)
    show ?thesis
    proof (cases "span_end s")
      case None
      with Cons have "re_sub pattern [] s DOTALL = c # re_sub pattern [] cs DOTALL"
        and "spec_remove_spans s = c # spec_remove_spans cs"
        by (simp_all add: sub_nomatch spec_nomatch)
      moreover from Cons 1 have "re_sub pattern [] cs DOTALL = spec_remove_spans cs" by simp
      ultimately show ?thesis by simp
    next
      case (Some n)
      then have "length (drop n s) < length s" by (rule span_end_shorter)
      with 1 have "re_sub pattern [] (drop n s) DOTALL = spec_remove_spans (drop n s)" by simp
      with Some show ?thesis by (simp add: sub_match spec_match)
    qed
  qed
qed

subsection \<open>Facts about \<open>strip\<close>\<close>

lemma lstrip_suffix: "suffix (lstrip x) x"
  by (simp add: lstrip_def suffix_dropWhile)

lemma rstrip_prefix: "prefix (rstrip x) x"
proof -
  have "suffix (dropWhile isspace (rev x)) (rev x)" by (rule suffix_dropWhile)
  then show ?thesis by (simp add: rstrip_def suffix_to_prefix)
qed

lemma strip_subseq: "subseq (strip x) x"
proof -
  have "subseq (rstrip (lstrip x)) (lstrip x)" using rstrip_prefix by blast
  moreover have "subseq (lstrip x) x" using lstrip_suffix by blast
  ultimately show ?thesis unfolding strip_def by (rule subseq_order.trans)
qed

lemma strip_length: "length (strip x) \<le> length x"
  using strip_subseq by (rule list_emb_length)

lemma lstrip_head: "lstrip x = [] \<or> \<not> isspace (hd (lstrip x))"
  using hd_dropWhile [of isspace x] by (auto simp: lstrip_def)

lemma rstrip_last: "rstrip x = [] \<or> \<not> isspace (last (rstrip x))"
proof (cases "dropWhile isspace (rev x) = []")
  case True
  then show ?thesis by (simp add: rstrip_def)
next
  case False
  then have "\<not> isspace (hd (dropWhile isspace (rev x)))" by (rule hd_dropWhile)
  with False show ?thesis by (simp add: rstrip_def last_rev)
qed

lemma rstrip_head: "rstrip x \<noteq> [] \<Longrightarrow> hd (rstrip x) = hd x"
proof -
  assume ne: "rstrip x \<noteq> []"
  from rstrip_prefix obtain z where "x = rstrip x @ z" by (auto simp: prefix_def)
  then have "hd x = hd (rstrip x @ z)" by simp
  with ne show ?thesis by simp
qed

lemma strip_ends:
  "strip x = [] \<or> (\<not> isspace (hd (strip x)) \<and> \<not> isspace (last (strip x)))"
proof (cases "strip x = []")
  case True
  then show ?thesis by simp
next
  case False
  then have ne: "rstrip (lstrip x) \<noteq> []" by (simp add: strip_def)
  then have "lstrip x \<noteq> []" by (auto simp: rstrip_def)
  with lstrip_head have "\<not> isspace (hd (lstrip x))" by blast
  with ne have "\<not> isspace (hd (strip x))" by (simp add: strip_def rstrip_head)
  moreover from ne rstrip_last have "\<not> isspace (last (strip x))" by (auto simp: strip_def)
  ultimately show ?thesis by simp
qed

lemma lstrip_fixed: "x = [] \<or> \<not> isspace (hd x) \<Longrightarrow> lstrip x = x"
  by (simp add: lstrip_def dropWhile_eq_self_iff)

lemma rstrip_fixed: "x = [] \<or> \<not> isspace (last x) \<Longrightarrow> rstrip x = x"
proof -
  assume "x = [] \<or> \<not> isspace (last x)"
  then have "rev x = [] \<or> \<not> isspace (hd (rev x))" by (auto simp: hd_rev)
  then have "dropWhile isspace (rev x) = rev x" by (simp add: dropWhile_eq_self_iff)
  then show ?thesis by (simp add: rstrip_def)
qed

lemma strip_fixed:
  "x = [] \<or> (\<not> isspace (hd x) \<and> \<not> isspace (last x)) \<Longrightarrow> strip x = x"
  by (auto simp: strip_def lstrip_fixed rstrip_fixed)

lemma strip_strip: "strip (strip x) = strip x"
  using strip_ends [of x] by (rule strip_fixed)

subsection \<open>Texts without a span\<close>

lemma occurs_iff: "occurs m s \<longleftrightarrow> (\<exists>a c. s = a @ m @ c)"
proof (induction s)
  case Nil
  show ?case by (simp add: occurs_def)
next
  case (Cons x xs)
  show ?case
  proof
    assume "occurs m (x # xs)"
    then have "prefix m (x # xs) \<or> occurs m xs"
      by (auto simp: occurs_def split: if_splits)
    then show "\<exists>a c. x # xs = a @ m @ c"
    proof
      assume "prefix m (x # xs)"
      then obtain c where "x # xs = [] @ m @ c" by (auto simp: prefix_def)
      then show ?thesis by blast
    next
      assume "occurs m xs"
      with Cons.IH obtain a c where "xs = a @ m @ c" by blast
      then have "x # xs = (x # a) @ m @ c" by simp
      then show ?thesis by blast
    qed
  next
    assume "\<exists>a c. x # xs = a @ m @ c"
    then obtain a c where ac: "x # xs = a @ m @ c" by blast
    show "occurs m (x # xs)"
    proof (cases a)
      case Nil
      with ac have "prefix m (x # xs)" by (simp add: prefix_def)
      then show ?thesis by (simp add: occurs_def)
    next
      case (Cons y a')
      with ac have "xs = a' @ m @ c" by simp
      with Cons.IH have "occurs m xs" by blast
      then show ?thesis by (simp add: occurs_def)
    qed
  qed
qed

lemma span_at_head_iff:
  "prefix think_open s \<and> occurs think_close (drop (length think_open) s) \<longleftrightarrow>
     (\<exists>b c. s = think_open @ b @ think_close @ c)"
proof
  assume a: "prefix think_open s \<and> occurs think_close (drop (length think_open) s)"
  then obtain t where t: "s = think_open @ t" by (auto simp: prefix_def)
  with a have "occurs think_close t" by simp
  then obtain b c where "t = b @ think_close @ c" by (auto simp: occurs_iff)
  with t show "\<exists>b c. s = think_open @ b @ think_close @ c" by blast
next
  assume "\<exists>b c. s = think_open @ b @ think_close @ c"
  then obtain b c where s: "s = think_open @ b @ think_close @ c" by blast
  then have "prefix think_open s" by simp
  moreover have "occurs think_close (b @ think_close @ c)" by (auto simp: occurs_iff)
  ultimately show "prefix think_open s \<and> occurs think_close (drop (length think_open) s)"
    using s by simp
qed

lemma has_span_iff:
  "has_span s \<longleftrightarrow> (\<exists>a b c. s = a @ think_open @ b @ think_close @ c)"
proof (induction s)
  case Nil
  show ?case by (simp add: think_open_code)
next
  case (Cons x xs)
  show ?case
  proof
    assume "has_span (x # xs)"
    then have "(prefix think_open (x # xs)
        \<and> occurs think_close (drop (length think_open) (x # xs))) \<or> has_span xs"
      by (simp split: if_splits)
    then show "\<exists>a b c. x # xs = a @ think_open @ b @ think_close @ c"
    proof
      assume "prefix think_open (x # xs)
        \<and> occurs think_close (drop (length think_open) (x # xs))"
      then obtain b c where "x # xs = [] @ think_open @ b @ think_close @ c"
        using span_at_head_iff [of "x # xs"] by auto
      then show ?thesis by blast
    next
      assume "has_span xs"
      with Cons.IH obtain a b c where "xs = a @ think_open @ b @ think_close @ c" by blast
      then have "x # xs = (x # a) @ think_open @ b @ think_close @ c" by simp
      then show ?thesis by blast
    qed
  next
    assume "\<exists>a b c. x # xs = a @ think_open @ b @ think_close @ c"
    then obtain a b c where abc: "x # xs = a @ think_open @ b @ think_close @ c" by blast
    show "has_span (x # xs)"
    proof (cases a)
      case Nil
      with abc have "\<exists>b c. x # xs = think_open @ b @ think_close @ c" by auto
      then have "prefix think_open (x # xs)
        \<and> occurs think_close (drop (length think_open) (x # xs))"
        using span_at_head_iff [of "x # xs"] by blast
      then show ?thesis by simp
    next
      case (Cons y a')
      with abc have "xs = a' @ think_open @ b @ think_close @ c" by simp
      with Cons.IH have "has_span xs" by blast
      then show ?thesis by simp
    qed
  qed
qed

lemma has_span_Cons:
  "has_span (c # cs) \<longleftrightarrow> span_end (c # cs) \<noteq> None \<or> has_span cs"
  using span_end_None_iff [of "c # cs"] by auto

lemma sub_no_span:
  "\<not> has_span s \<Longrightarrow> re_sub pattern [] s DOTALL = s"
proof (induction s)
  case Nil
  show ?case by (rule sub_nil)
next
  case (Cons c cs)
  from Cons.prems have "span_end (c # cs) = None" and "\<not> has_span cs"
    unfolding has_span_Cons by simp_all
  with Cons.IH show ?case by (simp add: sub_nomatch)
qed

lemma sub_length_le:
  "length (re_sub pattern [] s DOTALL) \<le> length s"
proof (induction s rule: length_induct)
  case (1 s)
  show ?case
  proof (cases s)
    case Nil
    then show ?thesis by (simp add: sub_nil)
  next
    case (Cons c cs)
    show ?thesis
    proof (cases "span_end s")
      case None
      with Cons have "re_sub pattern [] s DOTALL = c # re_sub pattern [] cs DOTALL"
        by (simp add: sub_nomatch)
      moreover from Cons 1 have "length (re_sub pattern [] cs DOTALL) \<le> length cs" by simp
      ultimately show ?thesis using Cons by simp
    next
      case (Some n)
      then have sh: "length (drop n s) < length s" by (rule span_end_shorter)
      with 1 have "length (re_sub pattern [] (drop n s) DOTALL) \<le> length (drop n s)" by blast
      with sh Some show ?thesis by (simp add: sub_match)
    qed
  qed
qed

lemma sub_has_span_shorter:
  "has_span s \<Longrightarrow> length (re_sub pattern [] s DOTALL) < length s"
proof (induction s)
  case Nil
  then show ?case by simp
next
  case (Cons c cs)
  show ?case
  proof (cases "span_end (c # cs)")
    case None
    with Cons.prems have "has_span cs" unfolding has_span_Cons by simp
    with Cons.IH have "length (re_sub pattern [] cs DOTALL) < length cs" by simp
    with None show ?thesis by (simp add: sub_nomatch)
  next
    case (Some n)
    then have "length (drop n (c # cs)) < length (c # cs)" by (rule span_end_shorter)
    moreover have "length (re_sub pattern [] (drop n (c # cs)) DOTALL) \<le> length (drop n (c # cs))"
      by (rule sub_length_le)
    ultimately show ?thesis using Some by (simp add: sub_match)
  qed
qed

lemma sub_subseq:
  "subseq (re_sub pattern [] s DOTALL) s"
proof (induction s rule: length_induct)
  case (1 s)
  show ?case
  proof (cases s)
    case Nil
    then show ?thesis by (simp add: sub_nil)
  next
    case (Cons c cs)
    show ?thesis
    proof (cases "span_end s")
      case None
      with Cons have "re_sub pattern [] s DOTALL = c # re_sub pattern [] cs DOTALL"
        by (simp add: sub_nomatch)
      moreover from Cons 1 have "subseq (re_sub pattern [] cs DOTALL) cs" by simp
      ultimately show ?thesis using Cons by simp
    next
      case (Some n)
      then have "length (drop n s) < length s" by (rule span_end_shorter)
      with 1 have "subseq (re_sub pattern [] (drop n s) DOTALL) (drop n s)" by blast
      moreover have "subseq (drop n s) s" using suffix_drop by blast
      ultimately have "subseq (re_sub pattern [] (drop n s) DOTALL) s"
        by (rule subseq_order.trans)
      with Some show ?thesis by (simp add: sub_match)
    qed
  qed
qed

subsection \<open>Markers do not overlap\<close>

lemma prefix_straddle:
  assumes "x \<notin> set m'" and "u \<noteq> []" and "prefix (x # m') (u @ x # v)"
  shows "prefix (x # m') u"
proof -
  from assms(3) have "prefix (x # m') u \<or> (\<exists>us. x # m' = u @ us \<and> prefix us (x # v))"
    by (simp only: prefix_append)
  then show ?thesis
  proof
    assume "prefix (x # m') u"
    then show ?thesis .
  next
    assume "\<exists>us. x # m' = u @ us \<and> prefix us (x # v)"
    then obtain us where us: "x # m' = u @ us" and p: "prefix us (x # v)" by blast
    show ?thesis
    proof (cases us)
      case Nil
      with us show ?thesis by simp
    next
      case (Cons y us')
      with p have "y = x" by simp
      with us Cons assms(2) have "x \<in> set m'" by (cases u) auto
      with assms(1) show ?thesis by simp
    qed
  qed
qed

lemma find_marker_append_marker:
  assumes "x \<notin> set m'" and "find_marker (x # m') u = None"
  shows "find_marker (x # m') (u @ (x # m') @ v) = Some (length u)"
  using assms(2)
proof (induction u)
  case Nil
  show ?case by simp
next
  case (Cons c u)
  from Cons.prems have np: "\<not> prefix (x # m') (c # u)" and nf: "find_marker (x # m') u = None"
    by (simp_all split: if_splits)
  have "\<not> prefix (x # m') ((c # u) @ x # (m' @ v))"
    using prefix_straddle [OF assms(1), of "c # u" "m' @ v"] np by blast
  with Cons.IH [OF nf] show ?case by simp
qed

lemma find_marker_append_inert:
  assumes "x \<notin> set m'" and "find_marker (x # m') (x # w) = None"
  shows "find_marker (x # m') (u @ x # w) = find_marker (x # m') u"
proof (induction u)
  case Nil
  from assms(2) show ?case by simp
next
  case (Cons c u)
  have "prefix (x # m') ((c # u) @ x # w) \<longleftrightarrow> prefix (x # m') (c # u)"
    using prefix_straddle [OF assms(1), of "c # u" w] prefix_prefix by blast
  with Cons.IH show ?case by simp
qed

lemma find_marker_append_tail:
  assumes "m \<noteq> []" and "last m \<notin> set w"
  shows "find_marker m (u @ w) = find_marker m u"
proof (induction u)
  case Nil
  have "\<not> occurs m w"
  proof
    assume "occurs m w"
    then obtain a c where "w = a @ m @ c" by (auto simp: occurs_iff)
    with assms(1) have "last m \<in> set w" by simp
    with assms(2) show False by simp
  qed
  with assms(1) show ?case by (simp add: occurs_def)
next
  case (Cons c u)
  have "prefix m ((c # u) @ w) \<longleftrightarrow> prefix m (c # u)"
  proof
    assume "prefix m ((c # u) @ w)"
    then have "prefix m (c # u) \<or> (\<exists>us. m = (c # u) @ us \<and> prefix us w)"
      by (simp only: prefix_append)
    then show "prefix m (c # u)"
    proof
      assume "prefix m (c # u)"
      then show ?thesis .
    next
      assume "\<exists>us. m = (c # u) @ us \<and> prefix us w"
      then obtain us where m: "m = (c # u) @ us" and p: "prefix us w" by blast
      show ?thesis
      proof (cases "us = []")
        case True
        with m show ?thesis by simp
      next
        case False
        with m have "last m = last us" by simp
        with False have "last m \<in> set us" by simp
        with p have "last m \<in> set w" using set_mono_prefix by blast
        with assms(2) show ?thesis by simp
      qed
    qed
  next
    assume "prefix m (c # u)"
    then show "prefix m ((c # u) @ w)" by (rule prefix_prefix)
  qed
  with Cons.IH show ?case by simp
qed

lemma prefix_append_long:
  "length m \<le> length a \<Longrightarrow> prefix m (a @ t) \<longleftrightarrow> prefix m a"
  by (auto simp: prefix_append)

subsection \<open>Text that cannot take part in a match\<close>

lemma sub_no_close:
  assumes "find_marker think_close s = None"
  shows "re_sub pattern [] s DOTALL = s"
proof -
  have "\<not> has_span s"
  proof
    assume "has_span s"
    then obtain a b c where "s = (a @ think_open @ b) @ think_close @ c"
      by (auto simp: has_span_iff)
    then have "occurs think_close s" unfolding occurs_iff by blast
    with assms show False by (simp add: occurs_def)
  qed
  then show ?thesis by (rule sub_no_span)
qed

lemma span_end_append_inert:
  assumes inert: "\<And>u. find_marker think_close (u @ t) = find_marker think_close u"
  shows "span_end (a @ t) = span_end a"
proof (cases "length think_open \<le> length a")
  case True
  then have "prefix think_open (a @ t) \<longleftrightarrow> prefix think_open a"
    by (rule prefix_append_long)
  moreover from True have "drop (length think_open) (a @ t) = drop (length think_open) a @ t"
    by simp
  ultimately show ?thesis by (simp add: span_end_def inert)
next
  case False
  then have na: "\<not> prefix think_open a" using prefix_length_le by blast
  have "find_marker think_close t = None"
    using inert [of "[]"] by (simp add: think_close_code)
  then have "find_marker think_close (drop (length think_open - length a) t) = None"
    by (rule find_marker_None_drop)
  with False na show ?thesis by (simp add: span_end_def)
qed

lemma sub_append_inert:
  assumes inert: "\<And>u. find_marker think_close (u @ t) = find_marker think_close u"
  shows "re_sub pattern [] (a @ t) DOTALL = re_sub pattern [] a DOTALL @ t"
proof (induction a rule: length_induct)
  case (1 a)
  show ?case
  proof (cases a)
    case Nil
    have "find_marker think_close t = None"
      using inert [of "[]"] by (simp add: think_close_code)
    then have "re_sub pattern [] t DOTALL = t" by (rule sub_no_close)
    with Nil show ?thesis by (simp add: sub_nil)
  next
    case (Cons c cs)
    show ?thesis
    proof (cases "span_end a")
      case None
      then have "span_end (a @ t) = None" by (simp add: span_end_append_inert [OF inert])
      with Cons have "re_sub pattern [] (a @ t) DOTALL = c # re_sub pattern [] (cs @ t) DOTALL"
        using sub_nomatch [of c "cs @ t"] by simp
      moreover from Cons 1
      have "re_sub pattern [] (cs @ t) DOTALL = re_sub pattern [] cs DOTALL @ t" by simp
      moreover from None Cons
      have "re_sub pattern [] a DOTALL = c # re_sub pattern [] cs DOTALL"
        by (simp add: sub_nomatch)
      ultimately show ?thesis by simp
    next
      case (Some n)
      then have n: "15 \<le> n \<and> n \<le> length a" by (rule span_end_bound)
      from Some have sh: "length (drop n a) < length a" by (rule span_end_shorter)
      from Some have "span_end (a @ t) = Some n" by (simp add: span_end_append_inert [OF inert])
      then have "re_sub pattern [] (a @ t) DOTALL = re_sub pattern [] (drop n (a @ t)) DOTALL"
        by (rule sub_match)
      also from n have "drop n (a @ t) = drop n a @ t" by simp
      also from sh 1 have "re_sub pattern [] (drop n a @ t) DOTALL
          = re_sub pattern [] (drop n a) DOTALL @ t" by blast
      also from Some have "re_sub pattern [] (drop n a) DOTALL = re_sub pattern [] a DOTALL"
        by (simp add: sub_match)
      finally show ?thesis .
    qed
  qed
qed

lemma sub_lead:
  assumes "60 \<notin> set w"
  shows "re_sub pattern [] (w @ v) DOTALL = w @ re_sub pattern [] v DOTALL"
  using assms
proof (induction w)
  case Nil
  show ?case by simp
next
  case (Cons c w)
  then have "c \<noteq> 60" by auto
  then have "span_end (c # w @ v) = None" by (simp add: span_end_def think_open_code)
  with Cons show ?case by (simp add: sub_nomatch)
qed

lemma sub_before_open:
  assumes "\<not> occurs think_open a"
  shows "re_sub pattern [] (a @ think_open @ v) DOTALL = a @ re_sub pattern [] (think_open @ v) DOTALL"
  using assms
proof (induction a)
  case Nil
  show ?case by simp
next
  case (Cons c a)
  from Cons.prems have np: "\<not> prefix think_open (c # a)" and no: "\<not> occurs think_open a"
    by (simp_all add: occurs_def split: if_splits)
  have "\<not> prefix think_open ((c # a) @ think_open @ v)"
  proof
    assume "prefix think_open ((c # a) @ think_open @ v)"
    then have "prefix (60 # [116, 104, 105, 110, 107, 62])
        ((c # a) @ 60 # ([116, 104, 105, 110, 107, 62] @ v))"
      by (simp add: think_open_code)
    then have "prefix (60 # [116, 104, 105, 110, 107, 62]) (c # a)"
      by (rule prefix_straddle [rotated 2]) simp_all
    with np show False by (simp add: think_open_code)
  qed
  then have "span_end ((c # a) @ think_open @ v) = None" by (simp add: span_end_def)
  then have "re_sub pattern [] ((c # a) @ think_open @ v) DOTALL
      = c # re_sub pattern [] (a @ think_open @ v) DOTALL"
    using sub_nomatch [of c "a @ think_open @ v"] by simp
  with Cons.IH [OF no] show ?case by simp
qed

lemma sub_span:
  assumes "\<not> occurs think_close b"
  shows "re_sub pattern [] (think_open @ b @ think_close @ c) DOTALL = re_sub pattern [] c DOTALL"
proof -
  from assms have "find_marker (60 # [47, 116, 104, 105, 110, 107, 62]) b = None"
    by (simp add: occurs_def think_close_code)
  then have "find_marker (60 # [47, 116, 104, 105, 110, 107, 62])
      (b @ (60 # [47, 116, 104, 105, 110, 107, 62]) @ c) = Some (length b)"
    by (rule find_marker_append_marker [rotated]) simp
  then have "find_marker think_close (b @ think_close @ c) = Some (length b)"
    by (simp add: think_close_code)
  then have "span_end (think_open @ b @ think_close @ c)
      = Some (length think_open + length b + length think_close)"
    by (simp add: span_end_def)
  then have "re_sub pattern [] (think_open @ b @ think_close @ c) DOTALL
      = re_sub pattern [] (drop (length think_open + length b + length think_close)
          (think_open @ b @ think_close @ c)) DOTALL"
    by (rule sub_match)
  then show ?thesis by simp
qed

lemma sub_unterminated:
  assumes "\<not> occurs think_close b"
  shows "re_sub pattern [] (a @ think_open @ b) DOTALL = re_sub pattern [] a DOTALL @ think_open @ b"
proof -
  from assms have nb: "find_marker think_close b = None" by (simp add: occurs_def)
  have "find_marker (60 # [47, 116, 104, 105, 110, 107, 62])
      (60 # [116, 104, 105, 110, 107, 62] @ b) = None"
    using nb by (simp add: think_close_code)
  then have "\<And>u. find_marker (60 # [47, 116, 104, 105, 110, 107, 62])
      (u @ 60 # [116, 104, 105, 110, 107, 62] @ b)
      = find_marker (60 # [47, 116, 104, 105, 110, 107, 62]) u"
    by (rule find_marker_append_inert [rotated]) simp
  then have "\<And>u. find_marker think_close (u @ think_open @ b) = find_marker think_close u"
    by (simp add: think_close_code think_open_code)
  then show ?thesis by (rule sub_append_inert)
qed

lemma sub_trailing_space:
  assumes "\<forall>c\<in>set w. isspace c"
  shows "re_sub pattern [] (a @ w) DOTALL = re_sub pattern [] a DOTALL @ w"
proof -
  have "\<not> isspace 62" by (simp add: isspace_def)
  with assms have "62 \<notin> set w" by blast
  then have "last think_close \<notin> set w" by (simp add: think_close_code)
  moreover have "think_close \<noteq> []" by (simp add: think_close_code)
  ultimately have "\<And>u. find_marker think_close (u @ w) = find_marker think_close u"
    using find_marker_append_tail by blast
  then show ?thesis by (rule sub_append_inert)
qed

subsection \<open>Trimming around a text\<close>

lemma lstrip_lead: "\<forall>c\<in>set w. isspace c \<Longrightarrow> lstrip (w @ x) = lstrip x"
  by (simp add: lstrip_def)

lemma rstrip_trail: "\<forall>c\<in>set w. isspace c \<Longrightarrow> rstrip (x @ w) = rstrip x"
  using dropWhile_append2 [of "rev w" isspace "rev x"] by (simp add: rstrip_def)

lemma strip_around:
  assumes "\<forall>c\<in>set w1. isspace c" and "\<forall>c\<in>set w2. isspace c"
  shows "strip (w1 @ x @ w2) = strip x"
proof -
  have "strip (w1 @ x @ w2) = rstrip (lstrip (x @ w2))"
    using assms(1) by (simp add: strip_def lstrip_lead)
  also have "\<dots> = rstrip (lstrip x)"
  proof (cases "\<forall>c\<in>set x. isspace c")
    case True
    then have "dropWhile isspace x = []" by simp
    moreover from True assms(2) have "dropWhile isspace (x @ w2) = []" by auto
    ultimately show ?thesis by (simp only: lstrip_def)
  next
    case False
    then have "lstrip (x @ w2) = lstrip x @ w2" by (auto simp: lstrip_def dropWhile_append)
    with assms(2) show ?thesis by (simp add: rstrip_trail)
  qed
  finally show ?thesis by (simp add: strip_def)
qed

lemma strip_keeps_marker:
  assumes "\<not> isspace y" and "\<not> isspace z"
  shows "strip (x @ y # m @ z # b) = lstrip x @ y # m @ z # rstrip b"
proof -
  from assms(1) have "lstrip (x @ y # m @ z # b) = lstrip x @ y # m @ z # b"
    by (simp add: lstrip_def dropWhile_append3)
  moreover from assms(2)
  have "dropWhile isspace (rev b @ z # (rev m @ y # rev (lstrip x)))
      = dropWhile isspace (rev b) @ z # (rev m @ y # rev (lstrip x))"
    by (rule dropWhile_append3)
  then have "rstrip (lstrip x @ y # m @ z # b) = lstrip x @ y # m @ z # rstrip b"
    by (simp add: rstrip_def)
  ultimately show ?thesis by (simp add: strip_def)
qed

subsection \<open>The specification's trimming\<close>

lemma spec_trim_leading_lstrip: "spec_trim_leading s = lstrip s"
  by (induction s) (simp_all add: lstrip_def)

lemma rstrip_Nil_iff: "rstrip s = [] \<longleftrightarrow> (\<forall>c\<in>set s. isspace c)"
  by (simp add: rstrip_def)

lemma rstrip_Cons:
  "rstrip (c # cs) = (if rstrip cs = [] \<and> isspace c then [] else c # rstrip cs)"
proof (cases "\<forall>x\<in>set cs. isspace x")
  case True
  then have "rstrip cs = []" by (simp add: rstrip_Nil_iff)
  moreover from True have "dropWhile isspace (rev cs @ [c]) = dropWhile isspace [c]"
    by (simp add: dropWhile_append)
  ultimately show ?thesis by (simp add: rstrip_def)
next
  case False
  then have ne: "rstrip cs \<noteq> []" by (simp add: rstrip_Nil_iff)
  from False have "dropWhile isspace (rev cs @ [c]) = dropWhile isspace (rev cs) @ [c]"
    by (auto simp: dropWhile_append)
  with ne show ?thesis by (simp add: rstrip_def)
qed

lemma spec_trim_trailing_rstrip: "spec_trim_trailing s = rstrip s"
proof (induction s)
  case Nil
  show ?case by (simp add: rstrip_def)
next
  case (Cons c cs)
  then show ?case by (simp add: rstrip_Cons Let_def)
qed

lemma lstrip_rstrip: "lstrip (rstrip x) = strip x"
proof -
  define w where "w = rev (takeWhile isspace (rev x))"
  have "rstrip x @ w = rev (takeWhile isspace (rev x) @ dropWhile isspace (rev x))"
    by (simp only: rstrip_def w_def rev_append)
  then have w: "x = rstrip x @ w" by simp
  have ws: "\<forall>c\<in>set w. isspace c" using set_takeWhileD by (fastforce simp: w_def)
  have "strip x = strip ([] @ rstrip x @ w)" using w by simp
  also have "\<dots> = strip (rstrip x)" using ws by (intro strip_around) simp_all
  finally have s: "strip x = rstrip (lstrip (rstrip x))" by (simp add: strip_def)
  have "rstrip (lstrip (rstrip x)) = lstrip (rstrip x)"
  proof (cases "lstrip (rstrip x) = []")
    case True
    then show ?thesis by (simp add: rstrip_def)
  next
    case False
    from lstrip_suffix obtain u where u: "rstrip x = u @ lstrip (rstrip x)"
      by (auto simp: suffix_def)
    with False have "last (lstrip (rstrip x)) = last (rstrip x)"
      by (metis last_appendR)
    moreover from False u have "rstrip x \<noteq> []" by auto
    ultimately have "\<not> isspace (last (lstrip (rstrip x)))"
      using rstrip_last [of x] by simp
    then show ?thesis by (simp add: rstrip_fixed)
  qed
  with s show ?thesis by simp
qed

lemma spec_trim_strip: "spec_trim s = strip s"
  by (simp add: spec_trim_def spec_trim_leading_lstrip spec_trim_trailing_rstrip lstrip_rstrip)

subsection \<open>The pattern text and its compiled form\<close>

lemma re_compile_pattern: "re_compile pattern_source = Inr pattern"
  by (simp add: pattern_source_def str_def pattern_code atom_of_def)

lemma clean_response_call_not_str:
  "clean_response_call (PyBytes b) = Inl TypeError"
  "clean_response_call (PyInt i) = Inl TypeError"
  "clean_response_call PyNone = Inl TypeError"
  by (simp_all add: clean_response_call_def re_compile_pattern)

section \<open>The claims\<close>

text \<open>
  C1: for every text, \<open>clean_response\<close> returns what the specification describes:
  going from left to right it removes, again and again for every occurrence, the
  span from an opening marker \<^verbatim>\<open><think>\<close> to the nearest closing marker
  \<^verbatim>\<open></think>\<close> behind it, markers included and with any characters in
  between, newlines too; what remains is concatenated, and the whitespace at both
  ends is trimmed. The left side is the regular expression engine run on the
  pattern of the source, followed by \<open>strip\<close>; the right side is \<open>spec_clean\<close>,
  whose removal and whose trimming are both written from the specification's
  words. The characters the specification names, space, tab and newline, are
  whitespace, and \<^verbatim>\<open>"  hello  "\<close> is trimmed to \<^verbatim>\<open>"hello"\<close>.
\<close>

theorem clean_response_is_spec_clean:
  "clean_response text = spec_clean text
   \<and> isspace 32 \<and> isspace 9 \<and> isspace 10
   \<and> spec_clean (str ''  hello  '') = str ''hello''
   \<and> spec_clean (str ''<think>secret</think>visible'') = str ''visible''"
proof -
  have "re_sub pattern [] text DOTALL = spec_remove_spans text"
    by (rule sub_eq_spec)
  moreover have "strip (spec_remove_spans text) = spec_trim (spec_remove_spans text)"
    by (simp only: spec_trim_strip)
  ultimately have "clean_response text = spec_clean text"
    by (simp add: clean_response_def spec_clean_def)
  moreover have "isspace 32 \<and> isspace 9 \<and> isspace 10"
    by (simp add: isspace_def)
  moreover have "spec_clean (str ''  hello  '') = str ''hello''"
    by (simp add: spec_clean_def spec_trim_def spec_remove_spans.simps think_open_code
        str_def isspace_def)
  moreover have "spec_clean (str ''<think>secret</think>visible'') = str ''visible''"
    by (simp add: spec_clean_def spec_trim_def spec_remove_spans.simps think_open_code
        think_close_code str_def isspace_def)
  ultimately show ?thesis by simp
qed

text \<open>
  C7: on every text the call returns, and returns a text: neither compiling the
  pattern nor the check of the argument raises, and the matcher and the
  substitution loop end on every text (both were shown to terminate where they are
  defined). The empty text gives the empty text. Texts whose markers do not pair
  up are no error either: a closing marker before the first opening one stays, an
  opening marker inside a span is removed with the span, and a closing marker left
  over behind a span stays.
\<close>

theorem clean_response_total:
  "(\<forall>s. clean_response_call (PyStr s) = Inr (PyStr (clean_response s)))
   \<and> clean_response_call (PyStr []) = Inr (PyStr [])
   \<and> clean_response_call (PyStr (str ''</think><think>x</think>''))
       = Inr (PyStr (str ''</think>''))
   \<and> clean_response_call (PyStr (str ''<think><think>a</think>b</think>''))
       = Inr (PyStr (str ''b</think>''))
   \<and> clean_response_call (PyStr (str ''</think>oops<think>''))
       = Inr (PyStr (str ''</think>oops<think>''))"
proof -
  have call: "clean_response_call (PyStr s) = Inr (PyStr (clean_response s))" for s
    by (simp add: clean_response_call_def re_compile_pattern clean_response_def)
  have "clean_response [] = []"
    by (simp add: eval_defs)
  moreover have "clean_response (str ''</think><think>x</think>'') = str ''</think>''"
    by (simp add: eval_defs)
  moreover have "clean_response (str ''<think><think>a</think>b</think>'') = str ''b</think>''"
    by (simp add: eval_defs)
  moreover have "clean_response (str ''</think>oops<think>'') = str ''</think>oops<think>''"
    by (simp add: eval_defs)
  ultimately show ?thesis by (simp add: call)
qed

text \<open>
  C2: a text with no span, that is no opening marker \<^verbatim>\<open><think>\<close> with a
  closing marker \<^verbatim>\<open></think>\<close> somewhere behind it, is only trimmed:
  \<open>clean_response s\<close> is \<open>s\<close> without the whitespace at its two ends.
  (\<open>has_span_iff\<close> above says that \<open>has_span s\<close> holds exactly when \<open>s\<close> can be
  cut into \<open>a @ think_open @ b @ think_close @ c\<close>.)
\<close>

theorem clean_response_no_span:
  "\<not> has_span s \<Longrightarrow> clean_response s = strip s"
proof -
  assume "\<not> has_span s"
  then have "re_sub pattern [] s DOTALL = s" by (rule sub_no_span)
  then show ?thesis by (simp add: clean_response_def)
qed

theorem clean_response_no_span_witness:
  "\<not> has_span (str ''  hello  '') \<and> clean_response (str ''  hello  '') = str ''hello''"
proof -
  have h: "\<not> has_span (str ''  hello  '')"
    by (simp add: str_def think_open_code)
  have "strip (str ''  hello  '') = str ''hello''"
    by (simp add: str_def strip_def lstrip_def rstrip_def isspace_def)
  with h clean_response_no_span [OF h] show ?thesis by simp
qed

text \<open>
  C3, as the code has it: cleaning a second time changes nothing exactly when the
  first result holds no span. One pass can join the text before a removed span and
  the text behind it into a new span, which a second pass then removes.
\<close>

theorem clean_response_idempotent_iff:
  "clean_response (clean_response s) = clean_response s \<longleftrightarrow> \<not> has_span (clean_response s)"
proof
  assume eq: "clean_response (clean_response s) = clean_response s"
  show "\<not> has_span (clean_response s)"
  proof
    assume "has_span (clean_response s)"
    then have "length (re_sub pattern [] (clean_response s) DOTALL) < length (clean_response s)"
      by (rule sub_has_span_shorter)
    moreover have "length (clean_response (clean_response s))
        \<le> length (re_sub pattern [] (clean_response s) DOTALL)"
      unfolding clean_response_def [of "clean_response s"] by (rule strip_length)
    ultimately show False using eq by simp
  qed
next
  assume "\<not> has_span (clean_response s)"
  then have "re_sub pattern [] (clean_response s) DOTALL = clean_response s"
    by (rule sub_no_span)
  then have "clean_response (clean_response s) = strip (clean_response s)"
    by (simp add: clean_response_def [of "clean_response s"])
  also have "\<dots> = clean_response s"
    by (simp add: clean_response_def [of s] strip_strip)
  finally show "clean_response (clean_response s) = clean_response s" .
qed

theorem clean_response_idempotent_iff_witness:
  "\<not> has_span (clean_response (str ''<think>a</think> b ''))
   \<and> clean_response (clean_response (str ''<think>a</think> b ''))
       = clean_response (str ''<think>a</think> b '')"
proof -
  have v: "clean_response (str ''<think>a</think> b '') = [98]"
    by (simp add: eval_defs)
  have h: "\<not> has_span (clean_response (str ''<think>a</think> b ''))"
    unfolding v by (simp add: think_open_code)
  with clean_response_idempotent_iff [of "str ''<think>a</think> b ''"]
  show ?thesis by simp
qed

text \<open>
  The input \<^verbatim>\<open><thi<think></think>nk></think>\<close>: the first pass removes the
  inner span and leaves \<^verbatim>\<open><think></think>\<close>, the second pass leaves the empty
  text.
\<close>

theorem clean_response_not_idempotent:
  "clean_response (clean_response (str ''<thi<think></think>nk></think>''))
     \<noteq> clean_response (str ''<thi<think></think>nk></think>'')"
  by (simp add: eval_defs)

text \<open>
  C9: the result is a subsequence of the input, so it comes from the input by
  deleting characters only; nothing is inserted, repeated or moved, and the result
  is never longer than the input.
\<close>

theorem clean_response_subseq:
  "subseq (clean_response s) s \<and> length (clean_response s) \<le> length s"
proof -
  have "subseq (clean_response s) (re_sub pattern [] s DOTALL)"
    unfolding clean_response_def by (rule strip_subseq)
  moreover have "subseq (re_sub pattern [] s DOTALL) s" by (rule sub_subseq)
  ultimately have "subseq (clean_response s) s" by (rule subseq_order.trans)
  then show ?thesis using list_emb_length by blast
qed

text \<open>
  C4, as the code has it: an opening marker \<^verbatim>\<open><think>\<close> with no closing
  marker anywhere behind it is not removed. \<^verbatim>\<open>x<think>unterminated\<close> is
  returned as it is; and for every text \<open>a @ think_open @ b\<close> where \<open>b\<close> holds
  no closing marker, the removal acts on \<open>a\<close> alone and the result ends with the
  marker and with \<open>b\<close> less the whitespace at its end, which the trimming takes
  away.
\<close>

theorem clean_response_unterminated:
  "clean_response (str ''x<think>unterminated'') = str ''x<think>unterminated''
   \<and> (\<forall>a b. \<not> occurs think_close b \<longrightarrow>
         clean_response (a @ think_open @ b)
           = lstrip (re_sub pattern [] a DOTALL) @ think_open @ rstrip b)"
proof -
  have "clean_response (str ''x<think>unterminated'') = str ''x<think>unterminated''"
    by (simp add: eval_defs)
  moreover have "clean_response (a @ think_open @ b)
      = lstrip (re_sub pattern [] a DOTALL) @ think_open @ rstrip b"
    if nb: "\<not> occurs think_close b" for a b
  proof -
    from nb have "re_sub pattern [] (a @ think_open @ b) DOTALL
        = re_sub pattern [] a DOTALL @ think_open @ b"
      by (rule sub_unterminated)
    moreover have "strip (re_sub pattern [] a DOTALL @ 60 # [116, 104, 105, 110, 107] @ 62 # b)
        = lstrip (re_sub pattern [] a DOTALL) @ 60 # [116, 104, 105, 110, 107] @ 62 # rstrip b"
      by (rule strip_keeps_marker) (simp_all add: isspace_def)
    ultimately show ?thesis by (simp add: clean_response_def think_open_code)
  qed
  ultimately show ?thesis by blast
qed

theorem clean_response_unterminated_witness:
  "\<not> occurs think_close (str ''c </thin '')
   \<and> clean_response (str ''<think>a</think> b<think>c </thin '') = str ''b<think>c </thin''"
proof -
  have h: "\<not> occurs think_close (str ''c </thin '')"
    by (simp add: occurs_def think_close_code str_def)
  have a: "str ''<think>a</think> b<think>c </thin ''
      = str ''<think>a</think> b'' @ think_open @ str ''c </thin ''"
    by (simp add: str_def think_open_code)
  have "lstrip (re_sub pattern [] (str ''<think>a</think> b'') DOTALL) = str ''b''"
    by (simp add: eval_defs)
  moreover have "rstrip (str ''c </thin '') = str ''c </thin''"
    by (simp add: eval_defs)
  ultimately have "clean_response (str ''<think>a</think> b<think>c </thin '')
      = str ''b'' @ think_open @ str ''c </thin''"
    using clean_response_unterminated h unfolding a by simp
  then show ?thesis using h by (simp add: str_def think_open_code)
qed

text \<open>
  The input \<^verbatim>\<open>"x<think>y "\<close>: its only opening marker has no closing marker
  behind it, and yet the text from that marker on is not in the result as it was,
  for the result is \<^verbatim>\<open>"x<think>y"\<close>, without the space at the end.
\<close>

theorem clean_response_unterminated_trimmed:
  "\<not> has_span (str ''x<think>y '')
   \<and> clean_response (str ''x<think>y '') = str ''x<think>y''
   \<and> \<not> occurs (str ''<think>y '') (clean_response (str ''x<think>y ''))"
proof -
  have v: "clean_response (str ''x<think>y '') = str ''x<think>y''"
    by (simp add: eval_defs)
  have "\<not> has_span (str ''x<think>y '')"
    by (simp add: str_def think_open_code think_close_code occurs_def)
  moreover have "\<not> occurs (str ''<think>y '') (str ''x<think>y'')"
    by (simp add: str_def occurs_def)
  ultimately show ?thesis by (simp add: v)
qed

text \<open>
  C5: a span whose markers stand on different lines is removed as one span, since
  under \<^verbatim>\<open>re.DOTALL\<close> the dot matches the newline too:
  \<^verbatim>\<open>before<think>line1\nline2</think>after\<close> gives \<^verbatim>\<open>beforeafter\<close>
  (and without the flag the engine would remove nothing from that text). In
  general, where \<open>a\<close> holds no opening marker and \<open>b\<close>, whatever characters it
  is made of, holds no closing marker, the span \<open>think_open @ b @ think_close\<close> is
  removed whole from \<open>a @ think_open @ b @ think_close @ c\<close>.
\<close>

theorem clean_response_multiline:
  "clean_response (str ''before<think>line1'' @ [10] @ str ''line2</think>after'')
     = str ''beforeafter''
   \<and> re_sub pattern [] (str ''before<think>line1'' @ [10] @ str ''line2</think>after'') NOFLAG
     = str ''before<think>line1'' @ [10] @ str ''line2</think>after''
   \<and> (\<forall>a b c. \<not> occurs think_open a \<and> \<not> occurs think_close b \<longrightarrow>
         clean_response (a @ think_open @ b @ think_close @ c)
           = strip (a @ re_sub pattern [] c DOTALL))"
proof -
  have "clean_response (str ''before<think>line1'' @ [10] @ str ''line2</think>after'')
      = str ''beforeafter''"
    by (simp add: eval_defs)
  moreover have "re_sub pattern [] (str ''before<think>line1'' @ [10] @ str ''line2</think>after'') NOFLAG
      = str ''before<think>line1'' @ [10] @ str ''line2</think>after''"
    by (simp add: eval_defs)
  moreover have "clean_response (a @ think_open @ b @ think_close @ c)
      = strip (a @ re_sub pattern [] c DOTALL)"
    if "\<not> occurs think_open a \<and> \<not> occurs think_close b" for a b c
  proof -
    from that have "re_sub pattern [] (a @ think_open @ b @ think_close @ c) DOTALL
        = a @ re_sub pattern [] (think_open @ b @ think_close @ c) DOTALL"
      by (simp add: sub_before_open)
    also from that have "\<dots> = a @ re_sub pattern [] c DOTALL"
      by (simp add: sub_span)
    finally show ?thesis by (simp add: clean_response_def)
  qed
  ultimately show ?thesis by blast
qed

theorem clean_response_multiline_witness:
  "\<not> occurs think_open (str ''a '') \<and> \<not> occurs think_close [10, 10, 120, 10]
   \<and> clean_response (str ''a '' @ think_open @ [10, 10, 120, 10] @ think_close @ str '' b'')
       = str ''a  b''"
proof -
  have h: "\<not> occurs think_open (str ''a '') \<and> \<not> occurs think_close [10, 10, 120, 10]"
    by (simp add: occurs_def think_open_code think_close_code str_def)
  have "clean_response (str ''a '' @ think_open @ [10, 10, 120, 10] @ think_close @ str '' b'')
      = strip (str ''a '' @ re_sub pattern [] (str '' b'') DOTALL)"
    by (rule clean_response_multiline [THEN conjunct2, THEN conjunct2, rule_format, OF h])
  moreover have "strip (str ''a '' @ re_sub pattern [] (str '' b'') DOTALL) = str ''a  b''"
    by (simp add: eval_defs)
  ultimately show ?thesis using h by simp
qed



text \<open>
  C10: the trimming removes every character that \<^verbatim>\<open>str.isspace\<close> accepts, not
  only the space, the tab and the newline. Carriage return, vertical tab and form
  feed are whitespace, and \<^verbatim>\<open>\r\x0bhello\x0c\<close> gives \<^verbatim>\<open>hello\<close>; a
  result that is not empty neither begins nor ends with a whitespace character; and
  whitespace of any kind put before and behind a text does not change what the text
  is cleaned to.
\<close>

theorem clean_response_strips_all_whitespace:
  "clean_response ([13, 11] @ str ''hello'' @ [12]) = str ''hello''
   \<and> isspace 13 \<and> isspace 11 \<and> isspace 12
   \<and> (\<forall>s. clean_response s = []
         \<or> (\<not> isspace (hd (clean_response s)) \<and> \<not> isspace (last (clean_response s))))
   \<and> (\<forall>w1 t w2. (\<forall>c\<in>set w1. isspace c) \<and> (\<forall>c\<in>set w2. isspace c) \<longrightarrow>
         clean_response (w1 @ t @ w2) = clean_response t)"
proof -
  have "clean_response ([13, 11] @ str ''hello'' @ [12]) = str ''hello''"
    by (simp add: eval_defs)
  moreover have "isspace 13 \<and> isspace 11 \<and> isspace 12"
    by (simp add: isspace_def)
  moreover have "clean_response s = []
      \<or> (\<not> isspace (hd (clean_response s)) \<and> \<not> isspace (last (clean_response s)))" for s
    unfolding clean_response_def by (rule strip_ends)
  moreover have "clean_response (w1 @ t @ w2) = clean_response t"
    if w: "(\<forall>c\<in>set w1. isspace c) \<and> (\<forall>c\<in>set w2. isspace c)" for w1 t w2
  proof -
    have "\<not> isspace 60" by (simp add: isspace_def)
    with w have "60 \<notin> set w1" by blast
    then have "re_sub pattern [] (w1 @ t @ w2) DOTALL = w1 @ re_sub pattern [] (t @ w2) DOTALL"
      by (rule sub_lead)
    also from w have "re_sub pattern [] (t @ w2) DOTALL = re_sub pattern [] t DOTALL @ w2"
      by (simp add: sub_trailing_space)
    finally show ?thesis using w by (simp add: clean_response_def strip_around)
  qed
  ultimately show ?thesis by blast
qed

theorem clean_response_strips_all_whitespace_witness:
  "isspace 13 \<and> isspace 0x2003 \<and> isspace 0x85 \<and> isspace 12 \<and> isspace 0x3000
   \<and> clean_response ([13, 0x2003] @ str ''<think>x</think>hi'' @ [0x85, 12, 0x3000])
       = str ''hi''"
proof -
  have h: "(\<forall>c\<in>set [13, 0x2003]. isspace c) \<and> (\<forall>c\<in>set [0x85, 12, 0x3000]. isspace c)"
    by (simp add: isspace_def)
  have "clean_response ([13, 0x2003] @ str ''<think>x</think>hi'' @ [0x85, 12, 0x3000])
      = clean_response (str ''<think>x</think>hi'')"
    by (rule clean_response_strips_all_whitespace
        [THEN conjunct2, THEN conjunct2, THEN conjunct2, THEN conjunct2, THEN conjunct2,
          rule_format, OF h])
  moreover have "clean_response (str ''<think>x</think>hi'') = str ''hi''"
    by (simp add: eval_defs)
  ultimately show ?thesis using h by simp
qed

end
